theory Spec2Isabelle
  imports
    Main
    "HOL-Library.Multiset"
    "HOL-Library.Char_ord"
    "HOL-Library.List_Lexorder"
    "HOL-Library.Product_Lexorder"
begin

section \<open>The texture brush history (scenetooltexturebrush.cpp)\<close>

text \<open>
  \<^verbatim>\<open>SceneToolTextureBrush\<close> keeps \<^verbatim>\<open>std::vector<std::string> mBrushHistory\<close>; the brush
  window it owns keeps the selected texture in \<^verbatim>\<open>mBrushTexture\<close>. Only these two fields
  are read or written by the operations modelled here.
\<close>

record scene_tool =
  mBrushHistory :: "string list"
  mBrushTexture :: string

text \<open>
  \<^verbatim>\<open>std::vector::operator[]\<close> does not check its index: reading a row that is not in
  the vector is undefined behaviour, which the model returns as an error value.
\<close>

datatype brush_error = OutOfRange

text \<open>
  The constructors: \<^verbatim>\<open>TextureBrushWindow\<close> starts with \<^verbatim>\<open>mBrushTexture("L0#0")\<close>, and
  \<^verbatim>\<open>SceneToolTextureBrush\<close> does \<^verbatim>\<open>mBrushHistory.resize(1); mBrushHistory[0] = "L0#0";\<close>
\<close>

definition SceneToolTextureBrush :: scene_tool where
  "SceneToolTextureBrush =
     \<lparr>mBrushHistory = (replicate 1 [])[0 := ''L0#0''], mBrushTexture = ''L0#0''\<rparr>"

text \<open>
  \<^verbatim>\<open>
  void updateBrushHistory (const std::string& brushTexture)
  {
      mBrushHistory.insert(mBrushHistory.begin(), brushTexture);
      if(mBrushHistory.size() > 5) mBrushHistory.pop_back();
  }
  \<close>
\<close>

definition updateBrushHistory :: "string \<Rightarrow> scene_tool \<Rightarrow> scene_tool" where
  "updateBrushHistory brushTexture s =
     (let h = brushTexture # mBrushHistory s
      in s\<lparr>mBrushHistory := (if length h > 5 then butlast h else h)\<rparr>)"

text \<open>A sequence of \<^verbatim>\<open>updateBrushHistory\<close> calls, the first element of the list first.\<close>

fun updateBrushHistory_seq :: "string list \<Rightarrow> scene_tool \<Rightarrow> scene_tool" where
  "updateBrushHistory_seq [] s = s"
| "updateBrushHistory_seq (x # xs) s = updateBrushHistory_seq xs (updateBrushHistory x s)"

text \<open>
  \<^verbatim>\<open>
  void clicked (const QModelIndex& index)
  {
      if (index.column()==0 || index.column()==1)
      {
          std::string brushTexture = mBrushHistory[index.row()];
          std::swap(mBrushHistory[index.row()], mBrushHistory[0]);
          mTextureBrushWindow->setBrushTexture(brushTexture);
          emit passTextureId(brushTexture);
          ...
      }
  }
  \<close>
  The index is given by its column and row (both \<^verbatim>\<open>int\<close>). \<^verbatim>\<open>std::swap\<close> is written out
  as its three assignments.
\<close>

definition clicked :: "int \<Rightarrow> int \<Rightarrow> scene_tool \<Rightarrow> brush_error + scene_tool" where
  "clicked column row s =
     (if column = 0 \<or> column = 1 then
        (if 0 \<le> row \<and> nat row < length (mBrushHistory s) then
           (let brushTexture = mBrushHistory s ! nat row;
                tmp = mBrushHistory s ! nat row;
                h1 = (mBrushHistory s)[nat row := mBrushHistory s ! 0];
                h2 = h1[0 := tmp]
            in Inr (s\<lparr>mBrushHistory := h2, mBrushTexture := brushTexture\<rparr>))
         else Inl OutOfRange)
      else Inr s)"

section \<open>The script settings filter (settingswindow.cpp)\<close>

subsection \<open>Characters\<close>

text \<open>
  Strings are \<^verbatim>\<open>std::string\<close>: lists of bytes. The regular expressions are built in the
  default ("C") locale, where the class \<^verbatim>\<open>[:space:]\<close> holds the space and the five control
  characters tab, line feed, vertical tab, form feed and carriage return, and where folding
  case (the \<^verbatim>\<open>icase\<close> flag) maps the letters A to Z to a to z and nothing else.
\<close>

definition backslash :: char where
  "backslash = CHR 0x5C"

definition isspace :: "char \<Rightarrow> bool" where
  "isspace c = (c \<in> set [CHR 0x20, CHR 0x09, CHR 0x0A, CHR 0x0B, CHR 0x0C, CHR 0x0D])"

definition tolower :: "char \<Rightarrow> char" where
  "tolower c =
     (if CHR ''A'' \<le> c \<and> c \<le> CHR ''Z'' then char_of (of_char c + (32::nat)) else c)"

definition translate :: "bool \<Rightarrow> char \<Rightarrow> char" where
  "translate ic c = (if ic then tolower c else c)"

subsection \<open>The regular expressions of std::regex, extended (POSIX) grammar\<close>

text \<open>
  \<^verbatim>\<open>wordSearch\<close> builds a pattern at run time and hands it to
  \<^verbatim>\<open>std::regex(searchRegex, extended | icase)\<close>, so the constructor is modelled: a scanner
  from characters to tokens, a parser from tokens to an expression, and a matcher.

  In the extended grammar the special characters outside a bracket expression are the
  twelve of \<open>extended_spec_char\<close>; every other character is ordinary and stands for itself,
  but for the NUL character, which the constructor rejects wherever the scanner meets it
  (in every grammar other than ECMAScript): the constructor throws a
  \<^verbatim>\<open>std::regex_error\<close>, here \<open>error_null\<close>. A backslash before a special character makes
  that character ordinary; a backslash before any other character, or at the end of the
  pattern, is the error \<^verbatim>\<open>error_escape\<close>. Bracket expressions and interval expressions are
  not modelled: the parser answers with a value of its own for them, and \<open>wordSearch_eq\<close>
  shows that no pattern built by \<^verbatim>\<open>wordSearch\<close> gets there.
\<close>

datatype regex_error = error_escape | error_paren | error_badrepeat | error_null
  | bracket_not_modelled | interval_not_modelled

datatype token = T_ord char | T_anychar | T_line_begin | T_line_end
  | T_closure0 | T_closure1 | T_opt | T_or | T_subexpr_begin | T_subexpr_end
  | T_bracket_begin | T_interval_begin

definition extended_spec_char :: "char list" where
  "extended_spec_char =
     [CHR ''.'', CHR ''['', backslash, CHR ''('', CHR '')'', CHR ''*'', CHR ''+'', CHR ''?'',
      CHR ''{'', CHR ''|'', CHR ''^'', CHR ''$'']"

definition token_of :: "char \<Rightarrow> token" where
  "token_of c =
     (if c = CHR ''.'' then T_anychar
      else if c = CHR ''['' then T_bracket_begin
      else if c = CHR ''('' then T_subexpr_begin
      else if c = CHR '')'' then T_subexpr_end
      else if c = CHR ''*'' then T_closure0
      else if c = CHR ''+'' then T_closure1
      else if c = CHR ''?'' then T_opt
      else if c = CHR ''{'' then T_interval_begin
      else if c = CHR ''|'' then T_or
      else if c = CHR ''^'' then T_line_begin
      else if c = CHR ''$'' then T_line_end
      else T_ord c)"

definition push_token :: "token \<Rightarrow> regex_error + token list \<Rightarrow> regex_error + token list" where
  "push_token t r = (case r of Inl e \<Rightarrow> Inl e | Inr ts \<Rightarrow> Inr (t # ts))"

fun scan :: "string \<Rightarrow> regex_error + token list" where
  "scan [] = Inr []"
| "scan [c] =
     (if c = CHR 0x00 then Inl error_null
      else if c = backslash then Inl error_escape
      else Inr [token_of c])"
| "scan (c # d # ds) =
     (if c = CHR 0x00 then Inl error_null
      else if c = backslash
      then (if d \<in> set extended_spec_char then push_token (T_ord d) (scan ds)
            else Inl error_escape)
      else push_token (token_of c) (scan (d # ds)))"

text \<open>
  Expressions. \<open>Group\<close> is a parenthesised (marked) subexpression; \<open>Bol\<close> and \<open>Eol\<close> are
  the anchors \<^verbatim>\<open>^\<close> and \<^verbatim>\<open>$\<close>.
\<close>

datatype ere = Epsilon | Chr char | AnyChar | Bol | Eol
  | Cat ere ere | Alt ere ere | Star ere | Plus ere | Opt ere | Group ere

fun mk_seq :: "ere list \<Rightarrow> ere" where
  "mk_seq [] = Epsilon"
| "mk_seq [r] = r"
| "mk_seq (r # rs) = Cat r (mk_seq rs)"

fun mk_alt :: "ere list \<Rightarrow> ere" where
  "mk_alt [] = Epsilon"
| "mk_alt [r] = r"
| "mk_alt (r # rs) = Alt r (mk_alt rs)"

text \<open>
  The parser keeps one frame per open parenthesis: the alternatives already closed by a
  \<^verbatim>\<open>|\<close>, and the pieces of the alternative being read. A repetition sign applies to the
  last piece read.
\<close>

type_synonym frame = "ere list \<times> ere list"

definition close_frame :: "frame \<Rightarrow> ere" where
  "close_frame f = mk_alt (fst f @ [mk_seq (snd f)])"

definition repeat :: "(ere \<Rightarrow> ere) \<Rightarrow> frame \<Rightarrow> regex_error + frame" where
  "repeat q f =
     (if snd f = [] then Inl error_badrepeat
      else Inr (fst f, butlast (snd f) @ [q (last (snd f))]))"

fun parse :: "token list \<Rightarrow> frame \<Rightarrow> frame list \<Rightarrow> regex_error + ere" where
  "parse [] f [] = Inr (close_frame f)"
| "parse [] f (g # st) = Inl error_paren"
| "parse (T_ord c # ts) f st = parse ts (fst f, snd f @ [Chr c]) st"
| "parse (T_anychar # ts) f st = parse ts (fst f, snd f @ [AnyChar]) st"
| "parse (T_line_begin # ts) f st = parse ts (fst f, snd f @ [Bol]) st"
| "parse (T_line_end # ts) f st = parse ts (fst f, snd f @ [Eol]) st"
| "parse (T_closure0 # ts) f st =
     (case repeat Star f of Inl e \<Rightarrow> Inl e | Inr f' \<Rightarrow> parse ts f' st)"
| "parse (T_closure1 # ts) f st =
     (case repeat Plus f of Inl e \<Rightarrow> Inl e | Inr f' \<Rightarrow> parse ts f' st)"
| "parse (T_opt # ts) f st =
     (case repeat Opt f of Inl e \<Rightarrow> Inl e | Inr f' \<Rightarrow> parse ts f' st)"
| "parse (T_or # ts) f st = parse ts (fst f @ [mk_seq (snd f)], []) st"
| "parse (T_subexpr_begin # ts) f st = parse ts ([], []) (f # st)"
| "parse (T_subexpr_end # ts) f [] = Inl error_paren"
| "parse (T_subexpr_end # ts) f (g # st) = parse ts (fst g, snd g @ [Group (close_frame f)]) st"
| "parse (T_bracket_begin # ts) f st = Inl bracket_not_modelled"
| "parse (T_interval_begin # ts) f st = Inl interval_not_modelled"

text \<open>\<^verbatim>\<open>mark_count()\<close>: the number of marked subexpressions.\<close>

fun mark_count :: "ere \<Rightarrow> nat" where
  "mark_count (Cat r s) = mark_count r + mark_count s"
| "mark_count (Alt r s) = mark_count r + mark_count s"
| "mark_count (Star r) = mark_count r"
| "mark_count (Plus r) = mark_count r"
| "mark_count (Opt r) = mark_count r"
| "mark_count (Group r) = Suc (mark_count r)"
| "mark_count r = 0"

record regex =
  icase :: bool
  expr :: ere

text \<open>The constructor \<^verbatim>\<open>std::regex(p, extended)\<close> or, with \<open>ic\<close>, \<^verbatim>\<open>extended | icase\<close>;
  \<open>Inl\<close> is the \<^verbatim>\<open>std::regex_error\<close> it throws.\<close>

definition regex_compile :: "bool \<Rightarrow> string \<Rightarrow> regex_error + regex" where
  "regex_compile ic p =
     (case scan p of
        Inl e \<Rightarrow> Inl e
      | Inr ts \<Rightarrow>
          (case parse ts ([], []) [] of
             Inl e \<Rightarrow> Inl e
           | Inr r \<Rightarrow> Inr \<lparr>icase = ic, expr = r\<rparr>))"

text \<open>
  Matching. \<open>rests ic n r s\<close> lists what can be left of \<open>s\<close> after \<open>r\<close> has matched a
  prefix of it; \<open>n\<close> is the length of the whole text, so that \<open>Bol\<close> knows the start. An
  ordinary character matches itself, up to case when \<open>ic\<close> is set. In the POSIX grammar the
  period matches any character except NUL. A star is the closure of single steps that
  consume at least one character, which \<open>length s\<close> rounds exhaust.
\<close>

fun star_closure :: "(string \<Rightarrow> string list) \<Rightarrow> nat \<Rightarrow> string list \<Rightarrow> string list" where
  "star_closure step 0 xs = xs"
| "star_closure step (Suc k) xs = xs @ star_closure step k (concat (map step xs))"

fun rests :: "bool \<Rightarrow> nat \<Rightarrow> ere \<Rightarrow> string \<Rightarrow> string list" where
  "rests ic n Epsilon s = [s]"
| "rests ic n (Chr c) s =
     (case s of [] \<Rightarrow> [] | x # xs \<Rightarrow> if translate ic x = translate ic c then [xs] else [])"
| "rests ic n AnyChar s =
     (case s of [] \<Rightarrow> [] | x # xs \<Rightarrow> if x = CHR 0x00 then [] else [xs])"
| "rests ic n Bol s = (if length s = n then [s] else [])"
| "rests ic n Eol s = (if s = [] then [s] else [])"
| "rests ic n (Cat r1 r2) s = concat (map (rests ic n r2) (rests ic n r1 s))"
| "rests ic n (Alt r1 r2) s = rests ic n r1 s @ rests ic n r2 s"
| "rests ic n (Star r) s =
     star_closure (\<lambda>x. filter (\<lambda>y. length y < length x) (rests ic n r x)) (length s) [s]"
| "rests ic n (Plus r) s =
     concat (map (\<lambda>t. star_closure (\<lambda>x. filter (\<lambda>y. length y < length x) (rests ic n r x))
                         (length t) [t])
                 (rests ic n r s))"
| "rests ic n (Opt r) s = s # rests ic n r s"
| "rests ic n (Group r) s = rests ic n r s"

text \<open>
  \<^verbatim>\<open>std::regex_search(text, matches, regex)\<close> tries every start position of the text, the
  first one first. Afterwards \<^verbatim>\<open>matches.size()\<close> is 0 when the search failed and
  1 + \<^verbatim>\<open>mark_count()\<close> when it succeeded: the whole match and one entry per marked
  subexpression, whether or not that subexpression took part.
\<close>

fun search_from :: "regex \<Rightarrow> nat \<Rightarrow> string \<Rightarrow> bool" where
  "search_from re n [] = (rests (icase re) n (expr re) [] \<noteq> [])"
| "search_from re n (c # cs) =
     (if rests (icase re) n (expr re) (c # cs) \<noteq> [] then True else search_from re n cs)"

definition regex_search :: "string \<Rightarrow> regex \<Rightarrow> bool" where
  "regex_search text re = search_from re (length text) text"

definition matches_size :: "string \<Rightarrow> regex \<Rightarrow> nat" where
  "matches_size text re = (if regex_search text re then Suc (mark_count (expr re)) else 0)"

subsection \<open>escapeRegex, wordSearch, weightedSearch\<close>

text \<open>
  \<^verbatim>\<open>
  std::string escapeRegex(const std::string& str)
  {
      static const std::regex specialChars(R"r([\^\.\[\$\(\)\|\*\+\?\{])r", std::regex_constants::extended);
      return std::regex_replace(str, specialChars, R"(\$&)");
  }
  \<close>
  \<^verbatim>\<open>specialChars\<close> is one bracket expression, compiled with the extended grammar. In
  that grammar a backslash inside a bracket expression is not an escape (POSIX, Regular
  Expressions, on bracket expressions: the period, the asterisk, the left bracket and the
  backslash lose their special meaning there; escapes in brackets belong to the ECMAScript
  and awk grammars). The backslash is a member of the class like any other character, and
  the members are the 22 characters between the brackets as they are written: the
  backslash eleven times and each of the eleven characters after a backslash once. As a
  set, these are the twelve special characters of the grammar, \<open>extended_spec_char\<close>.
  \<^verbatim>\<open>regex_replace\<close> copies the string and puts, for every character of the class, a
  backslash and the character itself (the format's \<^verbatim>\<open>$&\<close>).
\<close>

definition specialChars :: "char list" where
  "specialChars =
     [backslash, CHR ''^'', backslash, CHR ''.'', backslash, CHR ''['', backslash, CHR ''$'',
      backslash, CHR ''('', backslash, CHR '')'', backslash, CHR ''|'', backslash, CHR ''*'',
      backslash, CHR ''+'', backslash, CHR ''?'', backslash, CHR ''{'']"

fun escapeRegex :: "string \<Rightarrow> string" where
  "escapeRegex [] = []"
| "escapeRegex (c # cs) =
     (if c \<in> set specialChars then backslash # c # escapeRegex cs else c # escapeRegex cs)"

text \<open>
  \<^verbatim>\<open>
  std::regex wordSearch(const std::string& query)
  {
      static const std::regex wordsRegex(R"([^[:space:]]+)", std::regex_constants::extended);
      auto wordsBegin = std::sregex_iterator(query.begin(), query.end(), wordsRegex);
      auto wordsEnd = std::sregex_iterator();
      std::string searchRegex("(");
      for (auto it = wordsBegin; it != wordsEnd; ++it)
      {
          if (it != wordsBegin)
              searchRegex += '|';
          searchRegex += escapeRegex(query.substr(it->position(), it->length()));
      }
      searchRegex += ')';
      // query had only whitespace characters
      if (searchRegex == "()")
          searchRegex = "^(.*)$";
      return std::regex(searchRegex, std::regex_constants::extended | std::regex_constants::icase);
  }
  \<close>
  The iterator yields the maximal runs of characters that are not spaces, from left to
  right, each as its position and length: \<open>wordsRegex_iterator pos len cs\<close> is at position
  \<open>pos\<close> of the query with \<open>cs\<close> still to read and a run of \<open>len\<close> characters open.
\<close>

fun wordsRegex_iterator :: "nat \<Rightarrow> nat \<Rightarrow> string \<Rightarrow> (nat \<times> nat) list" where
  "wordsRegex_iterator pos len [] = (if len = 0 then [] else [(pos - len, len)])"
| "wordsRegex_iterator pos len (c # cs) =
     (if isspace c
      then (if len = 0 then [] else [(pos - len, len)]) @ wordsRegex_iterator (Suc pos) 0 cs
      else wordsRegex_iterator (Suc pos) (Suc len) cs)"

definition substr :: "string \<Rightarrow> nat \<Rightarrow> nat \<Rightarrow> string" where
  "substr s pos len = take len (drop pos s)"

text \<open>The loop: \<open>at_begin\<close> is \<^verbatim>\<open>it == wordsBegin\<close>.\<close>

fun wordSearch_loop :: "string \<Rightarrow> bool \<Rightarrow> (nat \<times> nat) list \<Rightarrow> string \<Rightarrow> string" where
  "wordSearch_loop query at_begin [] searchRegex = searchRegex"
| "wordSearch_loop query at_begin (it # its) searchRegex =
     wordSearch_loop query False its
       ((if at_begin then searchRegex else searchRegex @ ''|'')
          @ escapeRegex (substr query (fst it) (snd it)))"

text \<open>The string \<^verbatim>\<open>searchRegex\<close> as it stands at the \<^verbatim>\<open>return\<close>.\<close>

definition searchRegex_of :: "string \<Rightarrow> string" where
  "searchRegex_of query =
     (let searchRegex = wordSearch_loop query True (wordsRegex_iterator 0 0 query) ''('' @ '')''
      in if searchRegex = ''()'' then ''^(.*)$'' else searchRegex)"

definition wordSearch :: "string \<Rightarrow> regex_error + regex" where
  "wordSearch query = regex_compile True (searchRegex_of query)"

text \<open>
  \<^verbatim>\<open>
  double weightedSearch(const std::regex& regex, const std::string& text)
  {
      std::smatch matches;
      std::regex_search(text, matches, regex);
      return static_cast<double>(matches.size());
  }
  \<close>
  The double holds a small count exactly; it is an integer here.
\<close>

definition weightedSearch :: "regex \<Rightarrow> string \<Rightarrow> int" where
  "weightedSearch re text = int (matches_size text re)"

subsection \<open>renderScriptSettings\<close>

text \<open>
  \<^verbatim>\<open>
  struct WeightedPage {
      size_t mIndex; std::string mName; double mNameWeight; double mHintWeight;
      constexpr auto tie() const { return std::tie(mNameWeight, mHintWeight, mName); }
      constexpr bool operator<(const WeightedPage& rhs) const { return tie() < rhs.tie(); }
  };
  std::regex searchRegex = wordSearch(mScriptFilter->getCaption());
  std::vector<WeightedPage> weightedPages;
  for (size_t i = 0; i < LuaUi::scriptSettingsPageCount(); ++i)
  {
      LuaUi::ScriptSettingsPage page = LuaUi::scriptSettingsPageAt(i);
      double nameWeight = weightedSearch(searchRegex, page.mName);
      double hintWeight = weightedSearch(searchRegex, page.mSearchHints);
      if ((nameWeight + hintWeight) > 0)
          weightedPages.push_back({ i, page.mName, -nameWeight, -hintWeight });
  }
  std::sort(weightedPages.begin(), weightedPages.end());
  for (const WeightedPage& weightedPage : weightedPages)
      mScriptList->addItem(weightedPage.mName, weightedPage.mIndex);
  \<close>
  The pages registered with \<^verbatim>\<open>LuaUi\<close> are a list, page \<open>i\<close> at index \<open>i\<close>; the two fields of
  \<^verbatim>\<open>LuaUi::ScriptSettingsPage\<close> that are read carry the prefix \<open>page_\<close>, since a field name
  can belong to one record only. The result is the list of items added to
  \<^verbatim>\<open>mScriptList\<close>, each a name and an index, in the order they are added.

  Tuples compare lexicographically and \<^verbatim>\<open>std::string\<close> compares byte by byte, which is the
  order of \<open>int \<times> int \<times> string\<close>. \<^verbatim>\<open>std::sort\<close> is modelled by an insertion sort on the key
  \<open>tie\<close>; which of two pages with equal keys comes first is not fixed by \<^verbatim>\<open>std::sort\<close>, and
  nothing below depends on it.
\<close>

record ScriptSettingsPage =
  page_mName :: string
  page_mSearchHints :: string

record WeightedPage =
  mIndex :: nat
  mName :: string
  mNameWeight :: int
  mHintWeight :: int

definition tie :: "WeightedPage \<Rightarrow> int \<times> int \<times> string" where
  "tie p = (mNameWeight p, mHintWeight p, mName p)"

fun weightedPages_loop :: "regex \<Rightarrow> nat \<Rightarrow> ScriptSettingsPage list \<Rightarrow> WeightedPage list" where
  "weightedPages_loop searchRegex i [] = []"
| "weightedPages_loop searchRegex i (page # pages) =
     (let nameWeight = weightedSearch searchRegex (page_mName page);
          hintWeight = weightedSearch searchRegex (page_mSearchHints page)
      in (if nameWeight + hintWeight > 0
          then [\<lparr>mIndex = i, mName = page_mName page,
                 mNameWeight = - nameWeight, mHintWeight = - hintWeight\<rparr>]
          else [])
         @ weightedPages_loop searchRegex (Suc i) pages)"

definition std_sort :: "WeightedPage list \<Rightarrow> WeightedPage list" where
  "std_sort ps = sort_key tie ps"

definition renderScriptSettings ::
  "string \<Rightarrow> ScriptSettingsPage list \<Rightarrow> regex_error + (string \<times> nat) list" where
  "renderScriptSettings caption pages =
     (case wordSearch caption of
        Inl e \<Rightarrow> Inl e
      | Inr searchRegex \<Rightarrow>
          Inr (map (\<lambda>weightedPage. (mName weightedPage, mIndex weightedPage))
                 (std_sort (weightedPages_loop searchRegex 0 pages))))"

subsection \<open>Notions used to state the properties\<close>

text \<open>The words of a query: the substrings the loop of \<^verbatim>\<open>wordSearch\<close> escapes.\<close>

definition query_words :: "string \<Rightarrow> string list" where
  "query_words query =
     map (\<lambda>it. substr query (fst it) (snd it)) (wordsRegex_iterator 0 0 query)"

text \<open>
  The tokens of a query as the specification describes them: the query split at runs of
  space characters. \<open>tokens_from cur cs\<close> has the characters \<open>cur\<close> of the current token in
  hand and \<open>cs\<close> still to read.
\<close>

fun tokens_from :: "string \<Rightarrow> string \<Rightarrow> string list" where
  "tokens_from cur [] = (if cur = [] then [] else [cur])"
| "tokens_from cur (c # cs) =
     (if isspace c then (if cur = [] then [] else [cur]) @ tokens_from [] cs
      else tokens_from (cur @ [c]) cs)"

definition tokens :: "string \<Rightarrow> string list" where
  "tokens query = tokens_from [] query"

text \<open>Strings joined by the alternation sign.\<close>

fun join_alt :: "string list \<Rightarrow> string" where
  "join_alt [] = []"
| "join_alt [w] = w"
| "join_alt (w # v # ws) = w @ ''|'' @ join_alt (v # ws)"

text \<open>The expression that matches the string \<open>w\<close>, character by character.\<close>

definition literal :: "string \<Rightarrow> ere" where
  "literal w = mk_seq (map Chr w)"

text \<open>
  \<open>starts_with ic w s\<close>: the string \<open>w\<close> is a prefix of \<open>s\<close>, up to case when \<open>ic\<close> is set.
  \<open>occurs_in ic w s\<close>: it starts at some position of \<open>s\<close>.
\<close>

fun starts_with :: "bool \<Rightarrow> string \<Rightarrow> string \<Rightarrow> bool" where
  "starts_with ic [] s = True"
| "starts_with ic (c # w) [] = False"
| "starts_with ic (c # w) (x # s) = (translate ic x = translate ic c \<and> starts_with ic w s)"

fun occurs_in :: "bool \<Rightarrow> string \<Rightarrow> string \<Rightarrow> bool" where
  "occurs_in ic w [] = starts_with ic w []"
| "occurs_in ic w (x # s) = (if starts_with ic w (x # s) then True else occurs_in ic w s)"

section \<open>Properties of the brush history\<close>

lemma updateBrushHistory_length:
  "length (mBrushHistory s) \<le> 5 \<Longrightarrow> length (mBrushHistory (updateBrushHistory x s)) \<le> 5"
  by (simp add: updateBrushHistory_def Let_def)

lemma updateBrushHistory_front:
  "mBrushHistory (updateBrushHistory x s) ! 0 = x \<and> mBrushHistory (updateBrushHistory x s) \<noteq> []"
  by (cases "mBrushHistory s") (simp_all add: updateBrushHistory_def Let_def)

lemma updateBrushHistory_seq_length:
  "length (mBrushHistory s) \<le> 5 \<Longrightarrow> length (mBrushHistory (updateBrushHistory_seq xs s)) \<le> 5"
proof (induction xs arbitrary: s)
  case Nil
  then show ?case by simp
next
  case (Cons x xs)
  from Cons.prems have "length (mBrushHistory (updateBrushHistory x s)) \<le> 5"
    by (rule updateBrushHistory_length)
  then show ?case using Cons.IH by simp
qed

lemma updateBrushHistory_seq_snoc:
  "updateBrushHistory_seq (xs @ [x]) s = updateBrushHistory x (updateBrushHistory_seq xs s)"
  by (induction xs arbitrary: s) simp_all

lemma SceneToolTextureBrush_history: "mBrushHistory SceneToolTextureBrush = [''L0#0'']"
  by (simp add: SceneToolTextureBrush_def)

text \<open>
  Claim C3. Whatever sequence of \<^verbatim>\<open>updateBrushHistory\<close> calls is applied to the freshly
  constructed tool (whose history is the one seed entry), the history never holds more than
  5 entries; and after any further call with an identifier \<open>x\<close> the history is not empty and
  has \<open>x\<close> at position 0. Since the sequence \<open>xs\<close> is arbitrary, this covers the state after
  each call of any sequence.
\<close>

theorem updateBrushHistory_bounded_front:
  "length (mBrushHistory (updateBrushHistory_seq xs SceneToolTextureBrush)) \<le> 5
   \<and> length (mBrushHistory (updateBrushHistory_seq (xs @ [x]) SceneToolTextureBrush)) \<le> 5
   \<and> mBrushHistory (updateBrushHistory_seq (xs @ [x]) SceneToolTextureBrush) \<noteq> []
   \<and> mBrushHistory (updateBrushHistory_seq (xs @ [x]) SceneToolTextureBrush) ! 0 = x"
proof -
  have seed: "length (mBrushHistory SceneToolTextureBrush) \<le> 5"
    by (simp add: SceneToolTextureBrush_history)
  have a: "length (mBrushHistory (updateBrushHistory_seq xs SceneToolTextureBrush)) \<le> 5"
    using seed by (rule updateBrushHistory_seq_length)
  have b: "length (mBrushHistory (updateBrushHistory_seq (xs @ [x]) SceneToolTextureBrush)) \<le> 5"
    using seed by (rule updateBrushHistory_seq_length)
  show ?thesis
    using a b updateBrushHistory_front [of x "updateBrushHistory_seq xs SceneToolTextureBrush"]
    by (simp add: updateBrushHistory_seq_snoc)
qed

text \<open>
  Claim C7. From the freshly constructed tool, the calls with A, B, C, D, E, F in this order
  leave the history [F, E, D, C, B]: the seed entry and then A have been dropped from the
  tail.
\<close>

theorem updateBrushHistory_six_calls:
  "mBrushHistory
     (updateBrushHistory_seq [''A'', ''B'', ''C'', ''D'', ''E'', ''F''] SceneToolTextureBrush)
   = [''F'', ''E'', ''D'', ''C'', ''B'']"
  by (simp add: updateBrushHistory_def SceneToolTextureBrush_def Let_def)

text \<open>
  Claim C10. For a click in column 0 or 1 on a row \<open>p\<close> that is in range, \<^verbatim>\<open>clicked\<close>
  returns a state whose history has the entries at positions \<open>p\<close> and 0 exchanged, every
  other position unchanged, and the same length and the same multiset of entries.
\<close>

theorem clicked_swaps_only:
  assumes col: "column = 0 \<or> column = 1"
    and lo: "0 \<le> row"
    and hi: "nat row < length (mBrushHistory s)"
  shows "\<exists>s'. clicked column row s = Inr s'
           \<and> length (mBrushHistory s') = length (mBrushHistory s)
           \<and> mset (mBrushHistory s') = mset (mBrushHistory s)
           \<and> mBrushHistory s' ! 0 = mBrushHistory s ! nat row
           \<and> mBrushHistory s' ! nat row = mBrushHistory s ! 0
           \<and> (\<forall>i < length (mBrushHistory s).
                 i \<noteq> nat row \<and> i \<noteq> 0 \<longrightarrow> mBrushHistory s' ! i = mBrushHistory s ! i)"
proof -
  let ?h = "mBrushHistory s"
  let ?p = "nat row"
  let ?h' = "?h[?p := ?h ! 0, 0 := ?h ! ?p]"
  have res: "clicked column row s = Inr (s\<lparr>mBrushHistory := ?h', mBrushTexture := ?h ! ?p\<rparr>)"
    using col lo hi by (auto simp: clicked_def Let_def)
  have pos: "0 < length ?h" using hi by (cases "mBrushHistory s") simp_all
  have ms: "mset ?h' = mset ?h"
    using hi pos by (simp add: mset_swap)
  have front: "?h' ! 0 = ?h ! ?p"
    using pos by simp
  have rear: "?h' ! ?p = ?h ! 0"
    using hi by (cases "?p = 0") simp_all
  have frame: "\<forall>i < length ?h. i \<noteq> ?p \<and> i \<noteq> 0 \<longrightarrow> ?h' ! i = ?h ! i"
    by simp
  show ?thesis
    using res ms front rear frame by simp
qed

theorem clicked_swaps_only_witness:
  "clicked 1 3 \<lparr>mBrushHistory = [''A'', ''B'', ''C'', ''D'', ''E''], mBrushTexture = ''A''\<rparr>
   = Inr \<lparr>mBrushHistory = [''D'', ''B'', ''C'', ''A'', ''E''], mBrushTexture = ''D''\<rparr>"
  using clicked_swaps_only
    [of 1 3 "\<lparr>mBrushHistory = [''A'', ''B'', ''C'', ''D'', ''E''], mBrushTexture = ''A''\<rparr>"]
  by (simp add: clicked_def Let_def)

text \<open>
  Claim C2, as stated: a click on row 2 of the history [A, B, C, D, E] gives
  [C, A, B, D, E]. The code exchanges the two entries, so B stays at position 1 and A goes
  to position 2.
\<close>

theorem clicked_row2_not_rotated:
  "clicked 0 2 \<lparr>mBrushHistory = [''A'', ''B'', ''C'', ''D'', ''E''], mBrushTexture = ''A''\<rparr>
   \<noteq> Inr \<lparr>mBrushHistory = [''C'', ''A'', ''B'', ''D'', ''E''], mBrushTexture = ''C''\<rparr>"
  by (simp add: clicked_def Let_def)

text \<open>
  Claim C2, amended: a click (column 0 or 1 alike) on row 2 of a five-entry history
  [a, b, c, d, e] gives [c, b, a, d, e], selects c as the brush texture, and leaves the
  length at 5.
\<close>

theorem clicked_row2_swapped:
  "clicked 0 2 \<lparr>mBrushHistory = [a, b, c, d, e], mBrushTexture = t\<rparr>
     = Inr \<lparr>mBrushHistory = [c, b, a, d, e], mBrushTexture = c\<rparr>
   \<and> clicked 1 2 \<lparr>mBrushHistory = [a, b, c, d, e], mBrushTexture = t\<rparr>
     = Inr \<lparr>mBrushHistory = [c, b, a, d, e], mBrushTexture = c\<rparr>
   \<and> length [c, b, a, d, e] = length [a, b, c, d, e]"
  by (simp add: clicked_def Let_def)

section \<open>Properties of the script settings filter\<close>

subsection \<open>Scanning and parsing the pattern that wordSearch builds\<close>

text \<open>
  What \<^verbatim>\<open>escapeRegex\<close> escapes is what the scanner treats as special.
\<close>

lemma specialChars_iff:
  "c \<in> set specialChars \<longleftrightarrow> c \<in> set extended_spec_char"
  by (auto simp: specialChars_def extended_spec_char_def)

lemma token_of_ordinary: "c \<notin> set extended_spec_char \<Longrightarrow> token_of c = T_ord c"
  by (simp add: token_of_def extended_spec_char_def)

lemma backslash_special: "backslash \<in> set extended_spec_char"
  by (simp add: extended_spec_char_def)

lemma scan_Cons:
  "c \<noteq> backslash \<Longrightarrow> c \<noteq> CHR 0x00 \<Longrightarrow> scan (c # s) = push_token (token_of c) (scan s)"
  by (cases s) (simp_all add: push_token_def)

lemma scan_null: "scan (CHR 0x00 # s) = Inl error_null"
  by (cases s) simp_all

lemma scan_escaped:
  "c \<in> set extended_spec_char \<Longrightarrow> scan (backslash # c # s) = push_token (T_ord c) (scan s)"
  by (simp add: backslash_def)

lemma push_token_null: "push_token t (Inl e) = Inl e"
  by (simp add: push_token_def)

text \<open>
  An escaped word is scanned as the ordinary characters of the word, unless the word holds
  a NUL character: \<^verbatim>\<open>escapeRegex\<close> leaves that character as it is, and the scanner stops
  there.
\<close>

lemma scan_escapeRegex:
  "scan (escapeRegex w @ s) =
     (if CHR 0x00 \<in> set w then Inl error_null
      else case scan s of Inl e \<Rightarrow> Inl e | Inr ts \<Rightarrow> Inr (map T_ord w @ ts))"
proof (induction w)
  case Nil
  show ?case by (simp split: sum.split)
next
  case (Cons c w)
  show ?case
  proof (cases "c = CHR 0x00")
    case True
    then have "c \<notin> set specialChars" by (simp add: specialChars_def backslash_def)
    then show ?thesis using True by (simp add: scan_null)
  next
    case nz: False
    show ?thesis
    proof (cases "c \<in> set specialChars")
      case True
      then have "c \<in> set extended_spec_char" by (simp add: specialChars_iff)
      then have "scan (escapeRegex (c # w) @ s) = push_token (T_ord c) (scan (escapeRegex w @ s))"
        using True by (simp only: escapeRegex.simps if_True append_Cons scan_escaped)
      then show ?thesis using Cons.IH nz by (simp add: push_token_def split: sum.split)
    next
      case False
      then have ord: "c \<notin> set extended_spec_char" by (simp add: specialChars_iff)
      then have nb: "c \<noteq> backslash" using backslash_special by auto
      have "scan (escapeRegex (c # w) @ s) = push_token (T_ord c) (scan (escapeRegex w @ s))"
        using False nb nz ord by (simp add: scan_Cons token_of_ordinary)
      then show ?thesis using Cons.IH nz by (simp add: push_token_def split: sum.split)
    qed
  qed
qed

lemma parse_literal:
  "parse (map T_ord w @ ts) f st = parse ts (fst f, snd f @ map Chr w) st"
  by (induction w arbitrary: f) simp_all

lemma parse_alternatives:
  "parse (map T_ord w @ concat (map (\<lambda>v. T_or # map T_ord v) ws) @ T_subexpr_end # ts)
         (alts, []) (g # st)
   = parse ts (fst g, snd g @ [Group (mk_alt (alts @ map literal (w # ws)))]) st"
proof (induction ws arbitrary: w alts)
  case Nil
  show ?case by (simp add: parse_literal close_frame_def literal_def)
next
  case (Cons v vs)
  have "parse (map T_ord w @ concat (map (\<lambda>v. T_or # map T_ord v) (v # vs)) @ T_subexpr_end # ts)
          (alts, []) (g # st)
        = parse (map T_ord v @ concat (map (\<lambda>v. T_or # map T_ord v) vs) @ T_subexpr_end # ts)
          (alts @ [literal w], []) (g # st)"
    by (simp add: parse_literal literal_def)
  then show ?case using Cons.IH [of v "alts @ [literal w]"] by simp
qed

lemma scan_alternatives:
  "scan (concat (map (\<lambda>v. ''|'' @ escapeRegex v) ws) @ '')'')
   = (if CHR 0x00 \<in> set (concat ws) then Inl error_null
      else Inr (concat (map (\<lambda>v. T_or # map T_ord v) ws) @ [T_subexpr_end]))"
proof (induction ws)
  case Nil
  show ?case by (simp add: backslash_def token_of_def)
next
  case (Cons v vs)
  have "scan (concat (map (\<lambda>v. ''|'' @ escapeRegex v) (v # vs)) @ '')'')
        = push_token T_or (scan (escapeRegex v @ concat (map (\<lambda>v. ''|'' @ escapeRegex v) vs) @ '')''))"
    by (simp add: scan_Cons backslash_def token_of_def)
  then show ?case using Cons.IH by (simp add: scan_escapeRegex push_token_def)
qed

lemma join_alt_Cons: "join_alt (w # ws) = w @ concat (map (\<lambda>v. ''|'' @ v) ws)"
  by (induction ws arbitrary: w) simp_all

lemma scan_group:
  "scan (''('' @ join_alt (map escapeRegex (w # ws)) @ '')'')
   = (if CHR 0x00 \<in> set (concat (w # ws)) then Inl error_null
      else Inr (T_subexpr_begin
          # (map T_ord w @ concat (map (\<lambda>v. T_or # map T_ord v) ws) @ [T_subexpr_end])))"
proof -
  have eq: "join_alt (map escapeRegex (w # ws)) @ '')''
        = escapeRegex w @ concat (map (\<lambda>v. ''|'' @ escapeRegex v) ws) @ '')''"
    by (simp add: join_alt_Cons comp_def)
  have "scan (escapeRegex w @ concat (map (\<lambda>v. ''|'' @ escapeRegex v) ws) @ '')'')
             = (if CHR 0x00 \<in> set (concat (w # ws)) then Inl error_null
                else Inr (map T_ord w @ concat (map (\<lambda>v. T_or # map T_ord v) ws)
                          @ [T_subexpr_end]))"
    by (simp only: scan_escapeRegex scan_alternatives) auto
  then have "scan (join_alt (map escapeRegex (w # ws)) @ '')'')
             = (if CHR 0x00 \<in> set (concat (w # ws)) then Inl error_null
                else Inr (map T_ord w @ concat (map (\<lambda>v. T_or # map T_ord v) ws)
                          @ [T_subexpr_end]))"
    by (simp only: eq)
  then show ?thesis
    by (simp add: scan_Cons backslash_def token_of_def push_token_def)
qed

lemma compile_group:
  "regex_compile ic (''('' @ join_alt (map escapeRegex (w # ws)) @ '')'')
   = (if CHR 0x00 \<in> set (concat (w # ws)) then Inl error_null
      else Inr \<lparr>icase = ic, expr = Group (mk_alt (map literal (w # ws)))\<rparr>)"
proof (cases "CHR 0x00 \<in> set (concat (w # ws))")
  case True
  then show ?thesis
    unfolding regex_compile_def by (simp only: scan_group if_True sum.case)
next
  case False
  have "parse (T_subexpr_begin
          # (map T_ord w @ concat (map (\<lambda>v. T_or # map T_ord v) ws) @ [T_subexpr_end]))
          ([], []) []
        = Inr (Group (mk_alt (map literal (w # ws))))"
    using parse_alternatives [of w ws "[]" "[]" "([], [])" "[]"]
    by (simp add: close_frame_def)
  then show ?thesis using False
    unfolding regex_compile_def by (simp only: scan_group if_False sum.case)
qed

text \<open>The only marked subexpression is the pair of parentheses around the alternation.\<close>

lemma mark_count_mk_seq: "(\<And>r. r \<in> set rs \<Longrightarrow> mark_count r = 0) \<Longrightarrow> mark_count (mk_seq rs) = 0"
  by (induction rs rule: mk_seq.induct) simp_all

lemma mark_count_mk_alt: "(\<And>r. r \<in> set rs \<Longrightarrow> mark_count r = 0) \<Longrightarrow> mark_count (mk_alt rs) = 0"
  by (induction rs rule: mk_alt.induct) simp_all

lemma mark_count_literal: "mark_count (literal w) = 0"
  unfolding literal_def by (rule mark_count_mk_seq) auto

lemma mark_count_group: "mark_count (Group (mk_alt (map literal ws))) = 1"
proof -
  have "mark_count (mk_alt (map literal ws)) = 0"
    by (rule mark_count_mk_alt) (auto simp: mark_count_literal)
  then show ?thesis by simp
qed

subsection \<open>The pattern string\<close>

lemma wordSearch_loop_False:
  "wordSearch_loop query False its acc
   = acc @ concat (map (\<lambda>it. ''|'' @ escapeRegex (substr query (fst it) (snd it))) its)"
  by (induction its arbitrary: acc) simp_all

lemma wordSearch_loop_join:
  "wordSearch_loop query True its ''(''
   = ''('' @ join_alt (map (\<lambda>it. escapeRegex (substr query (fst it) (snd it))) its)"
proof (cases its)
  case Nil
  then show ?thesis by simp
next
  case (Cons it its')
  then show ?thesis
    by (simp add: wordSearch_loop_False join_alt_Cons comp_def)
qed

text \<open>
  Every match of the iterator is a non-empty substring of the query, so the test
  \<^verbatim>\<open>searchRegex == "()"\<close> succeeds only for a query without words.
\<close>

lemma wordsRegex_iterator_bounds:
  "len \<le> pos \<Longrightarrow> it \<in> set (wordsRegex_iterator pos len cs)
   \<Longrightarrow> 0 < snd it \<and> fst it + snd it \<le> pos + length cs"
proof (induction cs arbitrary: pos len)
  case Nil
  then show ?case by (auto split: if_splits)
next
  case (Cons c cs)
  show ?case
  proof (cases "isspace c")
    case True
    with Cons.prems have "it = (pos - len, len) \<and> len \<noteq> 0
        \<or> it \<in> set (wordsRegex_iterator (Suc pos) 0 cs)"
      by (auto split: if_splits)
    then show ?thesis
    proof
      assume "it = (pos - len, len) \<and> len \<noteq> 0"
      then show ?thesis using Cons.prems(1) by auto
    next
      assume "it \<in> set (wordsRegex_iterator (Suc pos) 0 cs)"
      then show ?thesis using Cons.IH [of 0 "Suc pos"] by simp
    qed
  next
    case False
    with Cons.prems have "it \<in> set (wordsRegex_iterator (Suc pos) (Suc len) cs)" by simp
    then show ?thesis using Cons.IH [of "Suc len" "Suc pos"] Cons.prems(1) by simp
  qed
qed

lemma query_words_nonempty: "w \<in> set (query_words query) \<Longrightarrow> w \<noteq> []"
proof -
  assume "w \<in> set (query_words query)"
  then obtain it where it: "it \<in> set (wordsRegex_iterator 0 0 query)"
    and w: "w = substr query (fst it) (snd it)"
    by (auto simp: query_words_def)
  from wordsRegex_iterator_bounds [OF _ it]
  have "0 < snd it" "fst it + snd it \<le> length query" by simp_all
  then have "length w = snd it" using w by (simp add: substr_def)
  then show ?thesis using \<open>0 < snd it\<close> by auto
qed

lemma escapeRegex_nonempty: "w \<noteq> [] \<Longrightarrow> escapeRegex w \<noteq> []"
  by (cases w) simp_all

lemma join_alt_nonempty: "ws \<noteq> [] \<Longrightarrow> (\<And>w. w \<in> set ws \<Longrightarrow> w \<noteq> []) \<Longrightarrow> join_alt ws \<noteq> []"
  by (cases ws) (simp_all add: join_alt_Cons)

lemma searchRegex_of_eq:
  "searchRegex_of query =
     (if query_words query = [] then ''^(.*)$''
      else ''('' @ join_alt (map escapeRegex (query_words query)) @ '')'')"
proof (cases "query_words query = []")
  case True
  then have "wordsRegex_iterator 0 0 query = []" by (simp add: query_words_def)
  then show ?thesis using True by (simp add: searchRegex_of_def)
next
  case False
  have body: "wordSearch_loop query True (wordsRegex_iterator 0 0 query) ''(''
              = ''('' @ join_alt (map escapeRegex (query_words query))"
    by (simp add: wordSearch_loop_join query_words_def comp_def)
  have "join_alt (map escapeRegex (query_words query)) \<noteq> []"
    using False by (intro join_alt_nonempty) (auto simp: escapeRegex_nonempty query_words_nonempty)
  then have "''('' @ join_alt (map escapeRegex (query_words query)) @ '')'' \<noteq> ''()''"
    by (cases "join_alt (map escapeRegex (query_words query))") simp_all
  then show ?thesis using False body by (simp add: searchRegex_of_def)
qed

text \<open>The positions and lengths the iterator yields cut the tokens out of the query.\<close>

lemma wordsRegex_iterator_tokens:
  "len \<le> length pre \<Longrightarrow>
   map (\<lambda>it. substr (pre @ cs) (fst it) (snd it)) (wordsRegex_iterator (length pre) len cs)
   = tokens_from (drop (length pre - len) pre) cs"
proof (induction cs arbitrary: pre len)
  case Nil
  then show ?case by (auto simp: substr_def)
next
  case (Cons c cs)
  have cur: "substr (pre @ c # cs) (length pre - len) len = drop (length pre - len) pre"
    using Cons.prems by (simp add: substr_def)
  show ?case
  proof (cases "isspace c")
    case True
    have "map (\<lambda>it. substr ((pre @ [c]) @ cs) (fst it) (snd it))
            (wordsRegex_iterator (length (pre @ [c])) 0 cs)
          = tokens_from (drop (length (pre @ [c]) - 0) (pre @ [c])) cs"
      by (rule Cons.IH) simp
    then have rest: "map (\<lambda>it. substr (pre @ c # cs) (fst it) (snd it))
            (wordsRegex_iterator (Suc (length pre)) 0 cs) = tokens_from [] cs"
      by simp
    show ?thesis using True cur rest Cons.prems by (auto simp: substr_def)
  next
    case False
    have "map (\<lambda>it. substr ((pre @ [c]) @ cs) (fst it) (snd it))
            (wordsRegex_iterator (length (pre @ [c])) (Suc len) cs)
          = tokens_from (drop (length (pre @ [c]) - Suc len) (pre @ [c])) cs"
      by (rule Cons.IH) (use Cons.prems in simp)
    then have rest: "map (\<lambda>it. substr (pre @ c # cs) (fst it) (snd it))
            (wordsRegex_iterator (Suc (length pre)) (Suc len) cs)
          = tokens_from (drop (length pre - len) pre @ [c]) cs"
      using Cons.prems by simp
    show ?thesis using False rest by simp
  qed
qed

lemma query_words_tokens: "query_words query = tokens query"
  using wordsRegex_iterator_tokens [of 0 "[]" query]
  by (simp add: query_words_def tokens_def)

subsection \<open>When wordSearch throws\<close>

text \<open>
  The characters of the tokens are the characters of the query that are not spaces; NUL is
  not a space, so a NUL character of the query is in one of its tokens.
\<close>

lemma concat_tokens_from:
  "concat (tokens_from cur cs) = cur @ filter (\<lambda>c. \<not> isspace c) cs"
  by (induction cs arbitrary: cur) simp_all

lemma null_in_tokens: "CHR 0x00 \<in> set (concat (tokens query)) \<longleftrightarrow> CHR 0x00 \<in> set query"
  by (auto simp: tokens_def concat_tokens_from isspace_def)

lemma compile_sentinel:
  "regex_compile ic ''^(.*)$'' = Inr \<lparr>icase = ic, expr = Cat Bol (Cat (Group (Star AnyChar)) Eol)\<rparr>"
  by (simp add: regex_compile_def backslash_def token_of_def push_token_def repeat_def
      close_frame_def)

text \<open>
  \<^verbatim>\<open>wordSearch\<close> throws exactly for the queries that hold a NUL character; for every other
  query it returns the sentinel or the alternation of the tokens.
\<close>

lemma wordSearch_eq:
  "wordSearch query =
     (if CHR 0x00 \<in> set query then Inl error_null
      else if tokens query = []
      then Inr \<lparr>icase = True, expr = Cat Bol (Cat (Group (Star AnyChar)) Eol)\<rparr>
      else Inr \<lparr>icase = True, expr = Group (mk_alt (map literal (tokens query)))\<rparr>)"
proof (cases "tokens query")
  case Nil
  then have "CHR 0x00 \<notin> set query" using null_in_tokens [of query] by simp
  then show ?thesis using Nil
    by (simp add: wordSearch_def searchRegex_of_eq compile_sentinel query_words_tokens)
next
  case (Cons w ws)
  have "regex_compile True (''('' @ join_alt (map escapeRegex (w # ws)) @ '')'')
        = (if CHR 0x00 \<in> set (concat (w # ws)) then Inl error_null
           else Inr \<lparr>icase = True, expr = Group (mk_alt (map literal (w # ws)))\<rparr>)"
    by (rule compile_group)
  then show ?thesis using Cons null_in_tokens [of query]
    by (simp add: wordSearch_def searchRegex_of_eq query_words_tokens)
qed

lemma wordSearch_total:
  "CHR 0x00 \<notin> set query
   \<Longrightarrow> \<exists>re. wordSearch query = Inr re \<and> icase re \<and> mark_count (expr re) = 1"
proof (cases "tokens query = []")
  case True
  moreover assume "CHR 0x00 \<notin> set query"
  ultimately show ?thesis by (simp add: wordSearch_eq)
next
  case False
  moreover assume "CHR 0x00 \<notin> set query"
  ultimately show ?thesis using mark_count_group [of "tokens query"]
    by (simp add: wordSearch_eq del: mark_count.simps)
qed

subsection \<open>The sentinel pattern\<close>

lemma star_closure_contains: "x \<in> set xs \<Longrightarrow> x \<in> set (star_closure step k xs)"
  by (cases k) simp_all

lemma star_closure_anychar:
  "CHR 0x00 \<notin> set s \<Longrightarrow> length s \<le> k \<Longrightarrow> s \<in> set xs
   \<Longrightarrow> [] \<in> set (star_closure (\<lambda>x. filter (\<lambda>y. length y < length x) (rests ic n AnyChar x)) k xs)"
proof (induction s arbitrary: k xs)
  case Nil
  then show ?case by (simp add: star_closure_contains)
next
  case (Cons c cs)
  let ?step = "\<lambda>x. filter (\<lambda>y. length y < length x) (rests ic n AnyChar x)"
  from Cons.prems obtain k' where k: "k = Suc k'" by (cases k) auto
  have one: "cs \<in> set (?step (c # cs))" using Cons.prems(1) by auto
  have "?step (c # cs) \<in> set (map ?step xs)"
    using Cons.prems(3) by (simp only: set_map) (rule imageI)
  with one have "cs \<in> \<Union> (set ` set (map ?step xs))" by blast
  then have "cs \<in> set (concat (map ?step xs))" by (simp only: set_concat)
  moreover have "CHR 0x00 \<notin> set cs" "length cs \<le> k'" using Cons.prems k by auto
  ultimately have "[] \<in> set (star_closure ?step k' (concat (map ?step xs)))"
    by (rule Cons.IH [rotated 2])
  then show ?case using k by simp
qed

lemma rests_sentinel:
  assumes "CHR 0x00 \<notin> set text"
  shows "[] \<in> set (rests ic (length text) (Cat Bol (Cat (Group (Star AnyChar)) Eol)) text)"
proof -
  have "[] \<in> set (rests ic (length text) (Star AnyChar) text)"
    using star_closure_anychar [OF assms, of "length text" "[text]" ic "length text"] by simp
  then have "[] \<in> set (rests ic (length text) (Cat (Group (Star AnyChar)) Eol) text)"
    by (auto intro!: bexI [where x = "[]"])
  then show ?thesis by simp
qed

lemma search_from_sentinel:
  assumes "CHR 0x00 \<notin> set text"
  shows "search_from \<lparr>icase = ic, expr = Cat Bol (Cat (Group (Star AnyChar)) Eol)\<rparr> (length text) text"
proof -
  have "rests ic (length text) (Cat Bol (Cat (Group (Star AnyChar)) Eol)) text \<noteq> []"
    using rests_sentinel [OF assms, of ic] by (metis empty_iff list.set(1))
  then show ?thesis by (cases "text") (simp_all del: rests.simps)
qed

subsection \<open>The page loop and the sort\<close>

lemma wordsRegex_iterator_spaces:
  "\<forall>c \<in> set query. isspace c \<Longrightarrow> wordsRegex_iterator pos 0 query = []"
  by (induction query arbitrary: pos) simp_all

lemma weightedPages_loop_enumerate:
  "weightedPages_loop re i pages =
     map (\<lambda>(j, page). \<lparr>mIndex = j, mName = page_mName page,
                        mNameWeight = - weightedSearch re (page_mName page),
                        mHintWeight = - weightedSearch re (page_mSearchHints page)\<rparr>)
       (filter (\<lambda>(j, page). weightedSearch re (page_mName page)
                             + weightedSearch re (page_mSearchHints page) \<noteq> 0)
          (enumerate i pages))"
proof (induction pages arbitrary: i)
  case Nil
  show ?case by simp
next
  case (Cons page pages)
  have nonneg: "0 \<le> weightedSearch re (page_mName page) + weightedSearch re (page_mSearchHints page)"
    by (simp add: weightedSearch_def)
  show ?case using Cons.IH [of "Suc i"] nonneg by (simp add: Let_def)
qed

lemma sorted_tie_same_weights:
  "(\<And>w. w \<in> set ws \<Longrightarrow> mNameWeight w = a \<and> mHintWeight w = b)
   \<Longrightarrow> sorted (map tie ws) \<Longrightarrow> sorted (map mName ws)"
  by (induction ws) (auto simp: tie_def)

subsection \<open>When the search succeeds\<close>

lemma rests_literal:
  "rests ic n (literal w) s = (if starts_with ic w s then [drop (length w) s] else [])"
  unfolding literal_def
proof (induction "map Chr w" arbitrary: w s rule: mk_seq.induct)
  case 1
  then show ?case by simp
next
  case (2 r)
  then obtain c where "w = [c]" "r = Chr c" by auto
  then show ?case by (cases s) auto
next
  case (3 r v va)
  then obtain c w' where w: "w = c # w'" "r = Chr c" "v # va = map Chr w'" by auto
  then obtain d w'' where w': "w' = d # w''" by (cases w') auto
  have ih: "rests ic n (mk_seq (map Chr w')) t
            = (if starts_with ic w' t then [drop (length w') t] else [])" for t
    using 3(1) [of w' t] w by simp
  show ?case
  proof (cases s)
    case Nil
    then show ?thesis using w w' by simp
  next
    case (Cons x xs)
    then show ?thesis using w w' ih [of xs] by simp
  qed
qed

lemma rests_mk_alt:
  "rs \<noteq> [] \<Longrightarrow> rests ic n (mk_alt rs) s = concat (map (\<lambda>r. rests ic n r s) rs)"
  by (induction rs rule: mk_alt.induct) simp_all

lemma rests_words:
  assumes "ws \<noteq> []"
  shows "rests ic n (Group (mk_alt (map literal ws))) s \<noteq> [] \<longleftrightarrow>
         (\<exists>w \<in> set ws. starts_with ic w s)"
proof -
  have "rests ic n (Group (mk_alt (map literal ws))) s
        = concat (map (\<lambda>r. rests ic n r s) (map literal ws))"
    using assms by (simp add: rests_mk_alt)
  then show ?thesis by (auto simp: rests_literal split: if_splits)
qed

lemma search_from_words:
  assumes "ws \<noteq> []"
  shows "search_from \<lparr>icase = ic, expr = Group (mk_alt (map literal ws))\<rparr> n s \<longleftrightarrow>
         (\<exists>w \<in> set ws. occurs_in ic w s)"
proof (induction s)
  case Nil
  show ?case using rests_words [OF assms, of ic n "[]"] by (simp del: rests.simps)
next
  case (Cons x s)
  show ?case using rests_words [OF assms, of ic n "x # s"] Cons.IH
    by (auto simp del: rests.simps)
qed

lemma star_closure_nul:
  "(\<And>x. x \<in> set xs \<Longrightarrow> CHR 0x00 \<in> set x)
   \<Longrightarrow> y \<in> set (star_closure (\<lambda>x. filter (\<lambda>y. length y < length x) (rests ic n AnyChar x)) k xs)
   \<Longrightarrow> CHR 0x00 \<in> set y"
proof (induction k arbitrary: xs)
  case 0
  then show ?case by simp
next
  case (Suc k)
  let ?step = "\<lambda>x. filter (\<lambda>y. length y < length x) (rests ic n AnyChar x)"
  have nxt: "CHR 0x00 \<in> set z" if "z \<in> set (concat (map ?step xs))" for z
  proof -
    from that obtain x where x: "x \<in> set xs" "z \<in> set (?step x)" by auto
    then have "CHR 0x00 \<in> set x" using Suc.prems(1) by blast
    then show ?thesis using x(2) by (cases x) (auto split: if_splits)
  qed
  from Suc.prems(2) have "y \<in> set xs \<or> y \<in> set (star_closure ?step k (concat (map ?step xs)))"
    by simp
  then show ?case using Suc.prems(1) Suc.IH [OF nxt] by blast
qed

lemma rests_sentinel_nul:
  assumes "CHR 0x00 \<in> set s"
  shows "rests ic n (Cat Bol (Cat (Group (Star AnyChar)) Eol)) s = []"
proof -
  have "\<And>y. y \<in> set (rests ic n (Star AnyChar) s) \<Longrightarrow> CHR 0x00 \<in> set y"
    using star_closure_nul [of "[s]" _ ic n "length s"] assms by simp
  then have "\<And>y. y \<in> set (rests ic n (Star AnyChar) s) \<Longrightarrow> y \<noteq> []" by fastforce
  then have "rests ic n (Cat (Group (Star AnyChar)) Eol) s = []" by auto
  then show ?thesis by simp
qed

lemma search_from_sentinel_suffix:
  "length s < n \<Longrightarrow> \<not> search_from \<lparr>icase = ic, expr = Cat Bol (Cat (Group (Star AnyChar)) Eol)\<rparr> n s"
  by (induction s) simp_all

lemma search_from_sentinel_iff:
  "search_from \<lparr>icase = ic, expr = Cat Bol (Cat (Group (Star AnyChar)) Eol)\<rparr> (length s) s
   \<longleftrightarrow> CHR 0x00 \<notin> set s"
proof (cases "CHR 0x00 \<in> set s")
  case True
  then obtain x xs where s: "s = x # xs" by (cases s) auto
  have "rests ic (length s) (Cat Bol (Cat (Group (Star AnyChar)) Eol)) s = []"
    using True by (rule rests_sentinel_nul)
  moreover have "\<not> search_from \<lparr>icase = ic, expr = Cat Bol (Cat (Group (Star AnyChar)) Eol)\<rparr> (length s) xs"
    by (rule search_from_sentinel_suffix) (simp add: s)
  ultimately show ?thesis using True s by (simp del: rests.simps)
next
  case False
  then show ?thesis using search_from_sentinel by simp
qed

lemma regex_search_words:
  assumes "ws \<noteq> []"
  shows "regex_search text \<lparr>icase = ic, expr = Group (mk_alt (map literal ws))\<rparr> \<longleftrightarrow>
         (\<exists>w \<in> set ws. occurs_in ic w text)"
  unfolding regex_search_def using assms by (rule search_from_words)

lemma regex_search_sentinel:
  "regex_search text \<lparr>icase = ic, expr = Cat Bol (Cat (Group (Star AnyChar)) Eol)\<rparr>
   \<longleftrightarrow> CHR 0x00 \<notin> set text"
  unfolding regex_search_def by (rule search_from_sentinel_iff)

section \<open>The claims about the script settings filter\<close>

text \<open>
  Claim C1, as stated: for every query the ranker has an output. For a query that holds a
  NUL character \<^verbatim>\<open>escapeRegex\<close> leaves that character in the pattern, the constructor of
  \<^verbatim>\<open>std::regex\<close> throws, and nothing is added to the list.
\<close>

theorem renderScriptSettings_null_query_throws:
  "renderScriptSettings [CHR 0x00]
     [\<lparr>page_mName = ''Fireball'', page_mSearchHints = ''''\<rparr>] = Inl error_null"
  by code_simp

text \<open>
  Claim C1, amended. For every query that holds no NUL character and every list of pages,
  \<^verbatim>\<open>wordSearch\<close> yields a regular expression (it does not throw), and the items added to
  the list are the names and indices of a list \<open>ws\<close> of weighted pages such that: \<open>ws\<close>
  holds, once each, exactly the pages whose name score plus hint score is not zero, each
  with its index, its name and its two scores negated; and \<open>ws\<close> is sorted ascending by the
  tuple (negated name score, negated hint score, name).
\<close>

theorem renderScriptSettings_filters_and_sorts:
  assumes "CHR 0x00 \<notin> set query"
  shows "\<exists>re ws. wordSearch query = Inr re
     \<and> renderScriptSettings query pages = Inr (map (\<lambda>w. (mName w, mIndex w)) ws)
     \<and> mset ws =
         mset (map (\<lambda>(i, page). \<lparr>mIndex = i, mName = page_mName page,
                        mNameWeight = - weightedSearch re (page_mName page),
                        mHintWeight = - weightedSearch re (page_mSearchHints page)\<rparr>)
                (filter (\<lambda>(i, page). weightedSearch re (page_mName page)
                                      + weightedSearch re (page_mSearchHints page) \<noteq> 0)
                   (enumerate 0 pages)))
     \<and> sorted (map (\<lambda>w. (mNameWeight w, mHintWeight w, mName w)) ws)"
proof -
  obtain re where re: "wordSearch query = Inr re" using wordSearch_total [OF assms] by blast
  let ?ws = "std_sort (weightedPages_loop re 0 pages)"
  have r: "renderScriptSettings query pages = Inr (map (\<lambda>w. (mName w, mIndex w)) ?ws)"
    by (simp add: renderScriptSettings_def re)
  have m: "mset ?ws = mset (weightedPages_loop re 0 pages)"
    by (simp add: std_sort_def)
  have s: "sorted (map tie ?ws)"
    by (simp add: std_sort_def)
  have t: "map tie ?ws = map (\<lambda>w. (mNameWeight w, mHintWeight w, mName w)) ?ws"
    by (simp add: tie_def)
  have s': "sorted (map (\<lambda>w. (mNameWeight w, mHintWeight w, mName w)) ?ws)"
    using s by (simp only: t)
  have m': "mset ?ws =
         mset (map (\<lambda>(i, page). \<lparr>mIndex = i, mName = page_mName page,
                        mNameWeight = - weightedSearch re (page_mName page),
                        mHintWeight = - weightedSearch re (page_mSearchHints page)\<rparr>)
                (filter (\<lambda>(i, page). weightedSearch re (page_mName page)
                                      + weightedSearch re (page_mSearchHints page) \<noteq> 0)
                   (enumerate 0 pages)))"
    using m by (simp only: weightedPages_loop_enumerate)
  show ?thesis
    by (intro exI [of _ re] exI [of _ "?ws"] conjI re r m' s')
qed

theorem renderScriptSettings_filters_and_sorts_witness:
  "(\<exists>re ws. wordSearch ''spike'' = Inr re
     \<and> renderScriptSettings ''spike''
          [\<lparr>page_mName = ''Fireball'', page_mSearchHints = ''''\<rparr>,
           \<lparr>page_mName = ''Ice Spike'', page_mSearchHints = ''fire resistant''\<rparr>]
        = Inr (map (\<lambda>w. (mName w, mIndex w)) ws)
     \<and> mset ws =
         mset (map (\<lambda>(i, page). \<lparr>mIndex = i, mName = page_mName page,
                        mNameWeight = - weightedSearch re (page_mName page),
                        mHintWeight = - weightedSearch re (page_mSearchHints page)\<rparr>)
                (filter (\<lambda>(i, page). weightedSearch re (page_mName page)
                                      + weightedSearch re (page_mSearchHints page) \<noteq> 0)
                   (enumerate 0
                      [\<lparr>page_mName = ''Fireball'', page_mSearchHints = ''''\<rparr>,
                       \<lparr>page_mName = ''Ice Spike'', page_mSearchHints = ''fire resistant''\<rparr>])))
     \<and> sorted (map (\<lambda>w. (mNameWeight w, mHintWeight w, mName w)) ws))
   \<and> renderScriptSettings ''spike''
          [\<lparr>page_mName = ''Fireball'', page_mSearchHints = ''''\<rparr>,
           \<lparr>page_mName = ''Ice Spike'', page_mSearchHints = ''fire resistant''\<rparr>]
      = Inr [(''Ice Spike'', 1)]"
proof -
  have h: "CHR 0x00 \<notin> set ''spike''" by simp
  have run: "renderScriptSettings ''spike''
          [\<lparr>page_mName = ''Fireball'', page_mSearchHints = ''''\<rparr>,
           \<lparr>page_mName = ''Ice Spike'', page_mSearchHints = ''fire resistant''\<rparr>]
      = Inr [(''Ice Spike'', 1)]"
    by code_simp
  show ?thesis
    using renderScriptSettings_filters_and_sorts [OF h] run by (rule conjI)
qed

text \<open>
  Claim C4, as stated: with the empty query every page of every non-empty list is added.
  The period of the sentinel pattern \<^verbatim>\<open>^(.*)$\<close> matches every character but NUL, so a page
  whose name and hint both hold a NUL character scores 0 and 0 and is left out.
\<close>

theorem empty_query_drops_null_page:
  "renderScriptSettings ''''
     [\<lparr>page_mName = [CHR 0x00], page_mSearchHints = [CHR 0x00]\<rparr>] = Inr []"
  by code_simp

text \<open>
  Claim C4, amended. With the empty query \<^verbatim>\<open>wordSearch\<close> returns a regular expression,
  not an error, and for every list of pages whose names and hints hold no NUL character
  every page scores 2 on its name and 2 on its hint; the items added are all the pages,
  each once with its index, and they are in ascending order of their names.
\<close>

theorem empty_query_returns_all:
  assumes "\<forall>page \<in> set pages.
             CHR 0x00 \<notin> set (page_mName page) \<and> CHR 0x00 \<notin> set (page_mSearchHints page)"
  shows "\<exists>re out. wordSearch '''' = Inr re
     \<and> renderScriptSettings '''' pages = Inr out
     \<and> mset out = mset (map (\<lambda>(i, page). (page_mName page, i)) (enumerate 0 pages))
     \<and> sorted (map fst out)
     \<and> (\<forall>page \<in> set pages. weightedSearch re (page_mName page) = 2
                              \<and> weightedSearch re (page_mSearchHints page) = 2)"
proof -
  let ?re = "\<lparr>icase = True, expr = Cat Bol (Cat (Group (Star AnyChar)) Eol)\<rparr>"
  have re: "wordSearch '''' = Inr ?re"
    by (simp add: wordSearch_eq tokens_def)
  have two: "weightedSearch ?re s = 2" if "CHR 0x00 \<notin> set s" for s
    using that by (simp add: weightedSearch_def matches_size_def regex_search_sentinel)
  have scores: "\<forall>page \<in> set pages. weightedSearch ?re (page_mName page) = 2
                              \<and> weightedSearch ?re (page_mSearchHints page) = 2"
    using assms two by blast
  let ?all = "map (\<lambda>(j, page). \<lparr>mIndex = j, mName = page_mName page,
                        mNameWeight = - 2, mHintWeight = - 2\<rparr>) (enumerate 0 pages)"
  have keep: "filter (\<lambda>(j, page). weightedSearch ?re (page_mName page)
                             + weightedSearch ?re (page_mSearchHints page) \<noteq> 0)
          (enumerate 0 pages) = enumerate 0 pages"
    using scores by (auto simp: filter_id_conv in_set_enumerate_eq)
  have loop: "weightedPages_loop ?re 0 pages = ?all"
    unfolding weightedPages_loop_enumerate keep
    using scores by (auto simp: in_set_enumerate_eq)
  let ?ws = "std_sort ?all"
  let ?out = "map (\<lambda>w. (mName w, mIndex w)) ?ws"
  have r: "renderScriptSettings '''' pages = Inr ?out"
    by (simp add: renderScriptSettings_def re loop)
  have "mset ?out = image_mset (\<lambda>w. (mName w, mIndex w)) (mset ?all)"
    by (simp add: std_sort_def)
  also have "\<dots> = mset (map (\<lambda>(i, page). (page_mName page, i)) (enumerate 0 pages))"
    by (simp add: image_mset.compositionality comp_def case_prod_unfold flip: mset_map)
  finally have m: "mset ?out = mset (map (\<lambda>(i, page). (page_mName page, i)) (enumerate 0 pages))" .
  have "sorted (map tie ?ws)" by (simp add: std_sort_def)
  moreover have "\<And>w. w \<in> set ?ws \<Longrightarrow> mNameWeight w = - 2 \<and> mHintWeight w = - 2"
    by (auto simp: std_sort_def)
  ultimately have "sorted (map mName ?ws)" by (rule sorted_tie_same_weights [rotated])
  then have s: "sorted (map fst ?out)" by (simp add: comp_def)
  show ?thesis using re r m s scores by blast
qed

theorem empty_query_returns_all_witness:
  "(\<exists>re out. wordSearch '''' = Inr re
      \<and> renderScriptSettings ''''
            [\<lparr>page_mName = ''Ice Spike'', page_mSearchHints = ''fire resistant''\<rparr>,
             \<lparr>page_mName = ''Fireball'', page_mSearchHints = ''''\<rparr>] = Inr out
      \<and> mset out = {#(''Ice Spike'', 0), (''Fireball'', 1)#}
      \<and> sorted (map fst out)
      \<and> weightedSearch re ''Ice Spike'' = 2 \<and> weightedSearch re ''fire resistant'' = 2
      \<and> weightedSearch re ''Fireball'' = 2 \<and> weightedSearch re '''' = 2)
   \<and> renderScriptSettings ''''
         [\<lparr>page_mName = ''Ice Spike'', page_mSearchHints = ''fire resistant''\<rparr>,
          \<lparr>page_mName = ''Fireball'', page_mSearchHints = ''''\<rparr>]
       = Inr [(''Fireball'', 1), (''Ice Spike'', 0)]"
proof -
  have run: "renderScriptSettings ''''
         [\<lparr>page_mName = ''Ice Spike'', page_mSearchHints = ''fire resistant''\<rparr>,
          \<lparr>page_mName = ''Fireball'', page_mSearchHints = ''''\<rparr>]
       = Inr [(''Fireball'', 1), (''Ice Spike'', 0)]"
    by code_simp
  have inst: "\<exists>re out. wordSearch '''' = Inr re
      \<and> renderScriptSettings ''''
            [\<lparr>page_mName = ''Ice Spike'', page_mSearchHints = ''fire resistant''\<rparr>,
             \<lparr>page_mName = ''Fireball'', page_mSearchHints = ''''\<rparr>] = Inr out
      \<and> mset out = {#(''Ice Spike'', 0), (''Fireball'', 1)#}
      \<and> sorted (map fst out)
      \<and> weightedSearch re ''Ice Spike'' = 2 \<and> weightedSearch re ''fire resistant'' = 2
      \<and> weightedSearch re ''Fireball'' = 2 \<and> weightedSearch re '''' = 2"
    using empty_query_returns_all
      [of "[\<lparr>page_mName = ''Ice Spike'', page_mSearchHints = ''fire resistant''\<rparr>,
            \<lparr>page_mName = ''Fireball'', page_mSearchHints = ''''\<rparr>]"]
    by (simp add: enumerate_simps)
  show ?thesis using inst run by (rule conjI)
qed

text \<open>
  Claim C5. For a query that consists of space characters only, \<^verbatim>\<open>wordSearch\<close> builds the
  pattern \<^verbatim>\<open>^(.*)$\<close>, the same pattern and the same regular expression as for the empty
  query, and the items added are the same as for the empty query, whatever the pages.
\<close>

theorem whitespace_query_same_as_empty:
  assumes "\<forall>c \<in> set query. isspace c"
  shows "searchRegex_of query = ''^(.*)$''
     \<and> searchRegex_of query = searchRegex_of ''''
     \<and> wordSearch query = wordSearch ''''
     \<and> renderScriptSettings query pages = renderScriptSettings '''' pages"
proof -
  have "wordsRegex_iterator 0 0 query = []"
    using assms by (rule wordsRegex_iterator_spaces)
  then have p: "searchRegex_of query = ''^(.*)$''"
    by (simp add: searchRegex_of_def)
  have e: "searchRegex_of '''' = ''^(.*)$''"
    by (simp add: searchRegex_of_def)
  show ?thesis
    using p e by (simp add: wordSearch_def renderScriptSettings_def)
qed

theorem whitespace_query_same_as_empty_witness:
  "searchRegex_of [CHR 0x20, CHR 0x09, CHR 0x20] = ''^(.*)$''
   \<and> renderScriptSettings [CHR 0x20, CHR 0x09, CHR 0x20]
        [\<lparr>page_mName = ''Fireball'', page_mSearchHints = ''''\<rparr>]
     = renderScriptSettings '''' [\<lparr>page_mName = ''Fireball'', page_mSearchHints = ''''\<rparr>]"
  using whitespace_query_same_as_empty
    [of "[CHR 0x20, CHR 0x09, CHR 0x20]" "[\<lparr>page_mName = ''Fireball'', page_mSearchHints = ''''\<rparr>]"]
  by (simp add: isspace_def)

text \<open>
  Claim C6. With the query "fire" and the two pages Fireball (no hint) and Ice Spike (hint
  "fire resistant"), in either order, both pages are added, Fireball before Ice Spike.
  Fireball scores 2 on its name and 0 on its hint, Ice Spike 0 on its name and 2 on its
  hint.
\<close>

theorem fire_query_name_match_first:
  "renderScriptSettings ''fire''
     [\<lparr>page_mName = ''Fireball'', page_mSearchHints = ''''\<rparr>,
      \<lparr>page_mName = ''Ice Spike'', page_mSearchHints = ''fire resistant''\<rparr>]
   = Inr [(''Fireball'', 0), (''Ice Spike'', 1)]
   \<and> renderScriptSettings ''fire''
     [\<lparr>page_mName = ''Ice Spike'', page_mSearchHints = ''fire resistant''\<rparr>,
      \<lparr>page_mName = ''Fireball'', page_mSearchHints = ''''\<rparr>]
   = Inr [(''Fireball'', 1), (''Ice Spike'', 0)]
   \<and> (case wordSearch ''fire'' of
        Inl e \<Rightarrow> []
      | Inr re \<Rightarrow> map (weightedSearch re) [''Fireball'', '''', ''Ice Spike'', ''fire resistant''])
     = [2, 0, 0, 2]"
  by code_simp

text \<open>
  Claim C8, as stated: \<^verbatim>\<open>escapeRegex\<close> leaves every character outside the eleven
  \<^verbatim>\<open>^ . [ $ ( ) | * + ? {\<close> unchanged, and the alternation of the escaped tokens of every
  query is compiled. The backslash is not one of the eleven, and it is escaped; and the
  query that is one NUL character has one token, which the constructor of \<^verbatim>\<open>std::regex\<close>
  refuses.
\<close>

theorem escapeRegex_backslash_escaped:
  "CHR 0x5C \<notin> set ''^.[$()|*+?{'' \<and> escapeRegex [CHR 0x5C] = [CHR 0x5C, CHR 0x5C]
   \<and> tokens [CHR 0x00] = [[CHR 0x00]] \<and> wordSearch [CHR 0x00] = Inl error_null"
  by code_simp

text \<open>
  Claim C8, amended. \<^verbatim>\<open>escapeRegex\<close> puts a backslash before every occurrence of the eleven
  characters \<^verbatim>\<open>^ . [ $ ( ) | * + ? {\<close> and of the backslash itself, and leaves every other
  character as it is. For a query with at least one token, the pattern is the escaped tokens
  joined by the alternation sign between one pair of parentheses; and when the query holds
  no NUL character, that pattern compiles, case folded, to one marked subexpression: the
  alternative of the tokens taken literally.
\<close>

theorem escapeRegex_and_pattern:
  "escapeRegex token =
     concat (map (\<lambda>c. if c \<in> set ''^.[$()|*+?{'' \<or> c = CHR 0x5C then [CHR 0x5C, c] else [c])
               token)
   \<and> (tokens query \<noteq> [] \<longrightarrow>
        searchRegex_of query = ''('' @ join_alt (map escapeRegex (tokens query)) @ '')'')
   \<and> (tokens query \<noteq> [] \<and> CHR 0x00 \<notin> set query \<longrightarrow>
        wordSearch query =
            Inr \<lparr>icase = True, expr = Group (mk_alt (map literal (tokens query)))\<rparr>
        \<and> mark_count (Group (mk_alt (map literal (tokens query)))) = 1)"
proof -
  have esc: "escapeRegex token =
     concat (map (\<lambda>c. if c \<in> set ''^.[$()|*+?{'' \<or> c = CHR 0x5C then [CHR 0x5C, c] else [c])
               token)"
    by (induction token) (auto simp: specialChars_def backslash_def)
  show ?thesis
    using esc mark_count_group [of "tokens query"]
    by (simp add: searchRegex_of_eq wordSearch_eq query_words_tokens del: mark_count.simps)
qed

theorem escapeRegex_and_pattern_witness:
  "escapeRegex ''a.b'' = [CHR ''a'', CHR 0x5C, CHR ''.'', CHR ''b'']
   \<and> tokens ''fire  a.b '' = [''fire'', ''a.b'']
   \<and> searchRegex_of ''fire  a.b '' = ''(fire|a'' @ [CHR 0x5C] @ ''.b)''
   \<and> wordSearch ''fire  a.b '' =
       Inr \<lparr>icase = True,
            expr = Group (Alt (Cat (Chr CHR ''f'') (Cat (Chr CHR ''i'') (Cat (Chr CHR ''r'') (Chr CHR ''e''))))
                              (Cat (Chr CHR ''a'') (Cat (Chr CHR ''.'') (Chr CHR ''b''))))\<rparr>"
proof -
  have w: "tokens ''fire  a.b '' = [''fire'', ''a.b'']"
    by (simp add: tokens_def isspace_def)
  show ?thesis
    using escapeRegex_and_pattern [of "''a.b''" "''fire  a.b ''"] w
    by (simp add: literal_def specialChars_def backslash_def)
qed

text \<open>
  Claim C9, as stated: for every query and every text there is a score, 0 or 2. For a query
  that holds a NUL character \<^verbatim>\<open>wordSearch\<close> throws: there is no regular expression to
  search any text with, and no score.
\<close>

theorem wordSearch_null_query_throws:
  "wordSearch (''fire '' @ [CHR 0x00]) = Inl error_null"
  by code_simp

text \<open>
  Claim C9, amended. For every query that holds no NUL character \<^verbatim>\<open>wordSearch\<close> returns a
  regular expression, and for every text the score \<^verbatim>\<open>weightedSearch\<close> computes with it is
  0 or 2: 2 when the search succeeds and 0 when it fails. The search succeeds exactly when
  some token of the query occurs in the text, case ignored (for a query without tokens:
  when the text has no NUL character); how many tokens occur, and how often, plays no part.
\<close>

theorem weightedSearch_binary:
  assumes "CHR 0x00 \<notin> set query"
  shows "\<exists>re. wordSearch query = Inr re
     \<and> (weightedSearch re text = 0 \<or> weightedSearch re text = 2)
     \<and> weightedSearch re text = (if regex_search text re then 2 else 0)
     \<and> regex_search text re =
         (if tokens query = [] then CHR 0x00 \<notin> set text
          else (\<exists>w \<in> set (tokens query). occurs_in True w text))"
proof -
  obtain re where re: "wordSearch query = Inr re" and mc: "mark_count (expr re) = 1"
    using wordSearch_total [OF assms] by blast
  have score: "weightedSearch re text = (if regex_search text re then 2 else 0)"
    by (simp add: weightedSearch_def matches_size_def mc)
  have found: "regex_search text re =
         (if tokens query = [] then CHR 0x00 \<notin> set text
          else (\<exists>w \<in> set (tokens query). occurs_in True w text))"
  proof (cases "tokens query = []")
    case True
    then have "re = \<lparr>icase = True, expr = Cat Bol (Cat (Group (Star AnyChar)) Eol)\<rparr>"
      using re assms by (simp add: wordSearch_eq)
    then show ?thesis using True by (simp add: regex_search_sentinel)
  next
    case False
    then have "re = \<lparr>icase = True, expr = Group (mk_alt (map literal (tokens query)))\<rparr>"
      using re assms by (simp add: wordSearch_eq)
    then show ?thesis using False regex_search_words [OF False] by simp
  qed
  show ?thesis
    using re score found by (intro exI [of _ re]) auto
qed

theorem weightedSearch_binary_witness:
  "(\<exists>re. wordSearch ''fire ice'' = Inr re
     \<and> (weightedSearch re ''Fire and ice, fire and ice'' = 0
        \<or> weightedSearch re ''Fire and ice, fire and ice'' = 2)
     \<and> weightedSearch re ''Fire and ice, fire and ice''
        = (if regex_search ''Fire and ice, fire and ice'' re then 2 else 0)
     \<and> regex_search ''Fire and ice, fire and ice'' re =
         (if tokens ''fire ice'' = [] then CHR 0x00 \<notin> set ''Fire and ice, fire and ice''
          else (\<exists>w \<in> set (tokens ''fire ice''). occurs_in True w ''Fire and ice, fire and ice'')))
   \<and> (case wordSearch ''fire ice'' of
        Inl e \<Rightarrow> []
      | Inr re \<Rightarrow> map (weightedSearch re) [''Fire and ice, fire and ice'', ''Fireball'', ''water''])
     = [2, 2, 0]"
proof -
  have h: "CHR 0x00 \<notin> set ''fire ice''" by simp
  have run: "(case wordSearch ''fire ice'' of
        Inl e \<Rightarrow> []
      | Inr re \<Rightarrow> map (weightedSearch re) [''Fire and ice, fire and ice'', ''Fireball'', ''water''])
     = [2, 2, 0]"
    by code_simp
  show ?thesis
    using weightedSearch_binary [OF h] run by (rule conjI)
qed

end
